theory Spec2Isabelle
  imports Main "HOL-Library.Word"
begin

unbundle bit_operations_syntax

section \<open>The CRSF receiver of crsf_receiver.py\<close>

text \<open>
  The decoder class \<^verbatim>\<open>CRSFReceiver\<close> is embedded as a record that is passed
  through its methods. Elements of a Python \<^verbatim>\<open>bytearray\<close> are integers in 0..255
  and are modelled as 8-bit words; every other number of the class is an unbounded Python
  integer and is modelled as \<open>int\<close> (lengths and list indices as \<open>nat\<close>).
\<close>

type_synonym byte = "8 word"

subsection \<open>Enumerations\<close>

text \<open>
  \<^verbatim>\<open>CRSFAddress\<close> is an \<^verbatim>\<open>IntEnum\<close>. The source lists 13 names, but
  \<^verbatim>\<open>FLIGHT_CONTROLLER = 0xC8\<close> repeats the value of \<^verbatim>\<open>USB\<close>: Python makes it an
  alias of \<^verbatim>\<open>USB\<close>, and iterating over the class yields the 12 members below, in
  this order.
\<close>

datatype CRSFAddress =
    BROADCAST | USB | TBS_CORE_PNP_PRO | RESERVED1 | CURRENT_SENSOR | GPS | TBS_BLACKBOX
  | RESERVED2 | RACE_TAG | RADIO_TRANSMITTER | CRSF_RECEIVER | CRSF_TRANSMITTER

fun addr_value :: "CRSFAddress \<Rightarrow> byte" where
  "addr_value BROADCAST = 0x00"
| "addr_value USB = 0xC8"
| "addr_value TBS_CORE_PNP_PRO = 0x80"
| "addr_value RESERVED1 = 0x8A"
| "addr_value CURRENT_SENSOR = 0xC0"
| "addr_value GPS = 0xC2"
| "addr_value TBS_BLACKBOX = 0xC4"
| "addr_value RESERVED2 = 0xCA"
| "addr_value RACE_TAG = 0xCC"
| "addr_value RADIO_TRANSMITTER = 0xEA"
| "addr_value CRSF_RECEIVER = 0xEC"
| "addr_value CRSF_TRANSMITTER = 0xEE"

definition FLIGHT_CONTROLLER :: CRSFAddress where
  "FLIGHT_CONTROLLER = USB"

text \<open>The list \<^verbatim>\<open>[addr.value for addr in CRSFAddress]\<close>.\<close>

definition address_values :: "byte list" where
  "address_values = map addr_value
     [BROADCAST, USB, TBS_CORE_PNP_PRO, RESERVED1, CURRENT_SENSOR, GPS, TBS_BLACKBOX,
      RESERVED2, RACE_TAG, RADIO_TRANSMITTER, CRSF_RECEIVER, CRSF_TRANSMITTER]"

text \<open>The two members of \<^verbatim>\<open>CRSFFrameType\<close> that the dispatcher compares with.\<close>

definition LINK_STATISTICS :: byte where
  "LINK_STATISTICS = 0x14"

definition RC_CHANNELS_PACKED :: byte where
  "RC_CHANNELS_PACKED = 0x16"

definition CRSF_MAX_PACKET_SIZE :: nat where
  "CRSF_MAX_PACKET_SIZE = 64"

subsection \<open>The decoder state\<close>

text \<open>
  The fields of \<^verbatim>\<open>CRSFReceiver\<close> that the decoder reads or writes. The field
  \<open>serial\<close> stands for \<^verbatim>\<open>self.serial\<close>: \<open>None\<close> when there is no port or the port
  is not open, \<open>Some q\<close> for an open port whose input queue holds the bytes \<open>q\<close>
  (\<^verbatim>\<open>in_waiting\<close> is \<open>length q\<close>).
\<close>

record crsf_receiver =
  serial :: "byte list option"
  buffer :: "byte list"
  channels :: "int list"
  rssi_1 :: int
  rssi_2 :: int
  link_quality :: int
  snr :: int
  active_antenna :: int
  rf_mode :: int
  tx_power :: int
  frame_count :: int
  error_count :: int

text \<open>\<^verbatim>\<open>__init__\<close>: no port yet, an empty buffer, 16 channels at 0, all counters 0.\<close>

definition init :: crsf_receiver where
  "init = \<lparr>serial = None, buffer = [], channels = replicate 16 0,
     rssi_1 = 0, rssi_2 = 0, link_quality = 0, snr = 0, active_antenna = 0,
     rf_mode = 0, tx_power = 0, frame_count = 0, error_count = 0\<rparr>"

text \<open>\<^verbatim>\<open>open\<close>, when \<^verbatim>\<open>serial.Serial\<close> succeeds: an open port, nothing received yet.\<close>

definition open_port :: "crsf_receiver \<Rightarrow> crsf_receiver" where
  "open_port s = s\<lparr>serial := Some []\<rparr>"

text \<open>
  The environment: the bytes \<open>bs\<close> arrive at the port. An open port queues them
  behind what it already holds; without an open port they are lost.
\<close>

definition feed :: "byte list \<Rightarrow> crsf_receiver \<Rightarrow> crsf_receiver" where
  "feed bs s = (case serial s of None \<Rightarrow> s | Some q \<Rightarrow> s\<lparr>serial := Some (q @ bs)\<rparr>)"

subsection \<open>CRC8\<close>

text \<open>
  \<^verbatim>\<open>_calculate_crc\<close>. The accumulator is a Python integer: inside the eight
  rounds it is shifted without a mask and grows beyond 8 bits; the mask is applied once
  per input byte, after the rounds.
\<close>

definition crc_round :: "int \<Rightarrow> int" where
  "crc_round crc = (if crc AND 0x80 \<noteq> 0 then push_bit 1 crc XOR 0xD5 else push_bit 1 crc)"

definition crc_byte :: "int \<Rightarrow> byte \<Rightarrow> int" where
  "crc_byte crc b = (crc_round ^^ 8) (crc XOR uint b) AND 0xFF"

definition calculate_crc :: "byte list \<Rightarrow> int" where
  "calculate_crc data = foldl crc_byte 0 data"

subsection \<open>Payload decoders\<close>

text \<open>\<^verbatim>\<open>int.from_bytes(bs, byteorder='little')\<close>.\<close>

fun from_bytes_little :: "byte list \<Rightarrow> int" where
  "from_bytes_little [] = 0"
| "from_bytes_little (b # bs) = uint b + 256 * from_bytes_little bs"

text \<open>
  \<^verbatim>\<open>_parse_rc_channels\<close>. The loop assigns \<^verbatim>\<open>self.channels[i]\<close> for \<open>i\<close> from 0
  to 15. The list is created with 16 elements and only ever updated in place
  (lemma \<open>channels_range_parse_frame\<close> below), so the assignment never raises.
\<close>

definition parse_rc_channels :: "byte list \<Rightarrow> crsf_receiver \<Rightarrow> crsf_receiver" where
  "parse_rc_channels payload s =
     (if length payload < 22 then s
      else let bits = from_bytes_little (take 22 payload)
           in s\<lparr>channels :=
                  foldl (\<lambda>ch i. ch[i := drop_bit (i * 11) bits AND 0x7FF]) (channels s) [0..<16]\<rparr>)"

text \<open>
  \<^verbatim>\<open>_parse_link_statistics\<close>. Six fields take the payload byte as it is, an
  integer in 0..255; \<^verbatim>\<open>struct.unpack('b', ...)\<close> reads byte 3 as a signed 8-bit value.
\<close>

definition parse_link_statistics :: "byte list \<Rightarrow> crsf_receiver \<Rightarrow> crsf_receiver" where
  "parse_link_statistics payload s =
     (if length payload < 10 then s
      else s\<lparr>rssi_1 := uint (payload ! 0),
             rssi_2 := uint (payload ! 1),
             link_quality := uint (payload ! 2),
             snr := sint (payload ! 3),
             active_antenna := uint (payload ! 4),
             rf_mode := uint (payload ! 5),
             tx_power := uint (payload ! 6)\<rparr>)"

subsection \<open>Frame dispatch\<close>

text \<open>
  \<^verbatim>\<open>_parse_frame\<close>. For a frame of at least 4 bytes, \<^verbatim>\<open>frame[3:-1]\<close> is
  \<open>butlast (drop 3 frame)\<close>, \<^verbatim>\<open>frame[2:-1]\<close> is \<open>butlast (drop 2 frame)\<close> and
  \<^verbatim>\<open>frame[-1]\<close> is \<open>last frame\<close>.
\<close>

definition parse_frame :: "byte list \<Rightarrow> crsf_receiver \<Rightarrow> crsf_receiver" where
  "parse_frame frame s =
     (if length frame < 4 then s
      else let frame_type = frame ! 2;
               payload = butlast (drop 3 frame);
               crc = uint (last frame);
               calculated_crc = calculate_crc (butlast (drop 2 frame))
           in if crc \<noteq> calculated_crc then s\<lparr>error_count := error_count s + 1\<rparr>
              else let s1 = s\<lparr>frame_count := frame_count s + 1\<rparr>
                   in if frame_type = RC_CHANNELS_PACKED then parse_rc_channels payload s1
                      else if frame_type = LINK_STATISTICS then parse_link_statistics payload s1
                      else s1)"

subsection \<open>Synchronisation and extraction\<close>

text \<open>
  The \<^verbatim>\<open>while len(self.buffer) >= 4\<close> loop of \<^verbatim>\<open>read_frame\<close>, returning the
  method's result and the new state. \<^verbatim>\<open>self.buffer.pop(0)\<close> is \<open>tl\<close>; both
  \<^verbatim>\<open>continue\<close> statements are the recursive calls, \<^verbatim>\<open>break\<close> and the end of the
  loop return \<open>False\<close>.
\<close>

function scan :: "crsf_receiver \<Rightarrow> bool \<times> crsf_receiver" where
  "scan s =
     (if 4 \<le> length (buffer s) then
        if buffer s ! 0 \<notin> set address_values then scan (s\<lparr>buffer := tl (buffer s)\<rparr>)
        else let frame_length = unat (buffer s ! 1)
             in if frame_length > CRSF_MAX_PACKET_SIZE then scan (s\<lparr>buffer := tl (buffer s)\<rparr>)
                else let total_length = frame_length + 2
                     in if length (buffer s) < total_length then (False, s)
                        else let frame = take total_length (buffer s);
                                 s1 = s\<lparr>buffer := drop total_length (buffer s)\<rparr>
                             in (True, parse_frame frame s1)
      else (False, s))"
  by pat_completeness auto
termination
  by (relation "measure (\<lambda>s. length (buffer s))") auto

declare scan.simps [simp del]

text \<open>
  \<^verbatim>\<open>read_frame\<close>: without an open port it returns \<open>False\<close>; otherwise it moves
  the waiting bytes, if any, from the port to the end of the buffer and runs the loop.
\<close>

definition read_frame :: "crsf_receiver \<Rightarrow> bool \<times> crsf_receiver" where
  "read_frame s =
     (case serial s of
        None \<Rightarrow> (False, s)
      | Some q \<Rightarrow>
          scan (if length q > 0 then s\<lparr>serial := Some [], buffer := buffer s @ q\<rparr> else s))"

subsection \<open>Callers\<close>

text \<open>
  The polling loops of the callers (\<^verbatim>\<open>continuous_monitor\<close>, the test programs) call
  \<^verbatim>\<open>read_frame\<close> again and again. \<open>drain\<close> is the loop
  \<^verbatim>\<open>while crsf.read_frame(): pass\<close>: it calls \<^verbatim>\<open>read_frame\<close> until a call
  returns \<open>False\<close>. Every call that returns \<open>True\<close> has removed a frame of at least
  two bytes, so the loop ends.
\<close>

function drain :: "crsf_receiver \<Rightarrow> crsf_receiver" where
  "drain s = (let (ok, s') = read_frame s in if ok then drain s' else s')"
  by pat_completeness auto
termination
proof (relation "measure (\<lambda>s. length (buffer s) + (case serial s of None \<Rightarrow> 0 | Some q \<Rightarrow> length q))")
  show "wf (measure (\<lambda>s. length (buffer s) + (case serial s of None \<Rightarrow> 0 | Some q \<Rightarrow> length q)))"
    by simp
next
  fix s x ok s'
  have pf: "buffer (parse_frame f t) = buffer t \<and> serial (parse_frame f t) = serial t" for f t
    by (simp add: parse_frame_def parse_rc_channels_def parse_link_statistics_def Let_def)
  have sc: "scan t = (True, t') \<Longrightarrow> length (buffer t') < length (buffer t) \<and> serial t' = serial t"
    for t t'
  proof (induction t rule: scan.induct)
    case (1 t)
    show ?case using "1.prems" "1.IH"
      apply (subst (asm) scan.simps)
      apply (auto simp: Let_def pf CRSF_MAX_PACKET_SIZE_def split: if_splits)
      done
  qed
  show "x = read_frame s \<Longrightarrow> (ok, s') = x \<Longrightarrow> ok \<Longrightarrow>
    (s', s) \<in> measure (\<lambda>s. length (buffer s) + (case serial s of None \<Rightarrow> 0 | Some q \<Rightarrow> length q))"
    by (auto simp: read_frame_def split: option.splits if_splits dest!: sc sym[of "(True, s')"])
qed

declare drain.simps [simp del]

text \<open>Feeding a stream in chunks: each chunk arrives at the port and is drained.\<close>

definition feed_chunks :: "byte list list \<Rightarrow> crsf_receiver \<Rightarrow> crsf_receiver" where
  "feed_chunks cs s = foldl (\<lambda>s c. drain (feed c s)) s cs"

text \<open>
  Everything that can happen to a decoder: \<^verbatim>\<open>open\<close> succeeds, \<^verbatim>\<open>close\<close>, bytes
  arrive at the port, \<^verbatim>\<open>read_frame\<close> is called. \<open>run\<close> applies a sequence of
  such events, the first one first.
\<close>

datatype event = Open | Close | Receive "byte list" | Read_frame

fun step :: "event \<Rightarrow> crsf_receiver \<Rightarrow> crsf_receiver" where
  "step Open s = open_port s"
| "step Close s = s\<lparr>serial := None\<rparr>"
| "step (Receive bs) s = feed bs s"
| "step Read_frame s = snd (read_frame s)"

definition run :: "event list \<Rightarrow> crsf_receiver \<Rightarrow> crsf_receiver" where
  "run evs s = foldl (\<lambda>s e. step e s) s evs"

subsection \<open>Packing channel values\<close>

text \<open>
  The packed CRSF layout, for the round trip through \<^verbatim>\<open>_parse_rc_channels\<close>:
  value \<open>i\<close> occupies the 11 bits from bit offset \<open>i * 11\<close> of one number, which is laid
  out in 22 bytes, least significant byte first.
\<close>

definition pack_bits :: "int list \<Rightarrow> int" where
  "pack_bits vs = sum_list (map (\<lambda>i. push_bit (i * 11) (vs ! i)) [0..<length vs])"

definition to_bytes_little :: "nat \<Rightarrow> int \<Rightarrow> byte list" where
  "to_bytes_little n x = map (\<lambda>k. word_of_int (drop_bit (8 * k) x)) [0..<n]"

definition pack_channels :: "int list \<Rightarrow> byte list" where
  "pack_channels vs = to_bytes_little 22 (pack_bits vs)"

section \<open>Properties\<close>

subsection \<open>Auxiliary facts\<close>

lemma parse_rc_channels_frame [simp]:
  "buffer (parse_rc_channels p s) = buffer s"
  "serial (parse_rc_channels p s) = serial s"
  "frame_count (parse_rc_channels p s) = frame_count s"
  "error_count (parse_rc_channels p s) = error_count s"
  "link_quality (parse_rc_channels p s) = link_quality s"
  by (simp_all add: parse_rc_channels_def Let_def)

lemma parse_link_statistics_frame [simp]:
  "buffer (parse_link_statistics p s) = buffer s"
  "serial (parse_link_statistics p s) = serial s"
  "frame_count (parse_link_statistics p s) = frame_count s"
  "error_count (parse_link_statistics p s) = error_count s"
  "channels (parse_link_statistics p s) = channels s"
  by (simp_all add: parse_link_statistics_def)

lemma parse_frame_buffer [simp]: "buffer (parse_frame f s) = buffer s"
  by (simp add: parse_frame_def Let_def)

lemma parse_frame_serial [simp]: "serial (parse_frame f s) = serial s"
  by (simp add: parse_frame_def Let_def)

text \<open>
  One call of the loop discards some number \<open>k\<close> of leading bytes and then either stops
  (nothing else changes) or cuts one frame of \<open>n\<close> bytes and hands it to \<open>parse_frame\<close>.
\<close>

lemma scan_cases:
  "\<exists>k. scan s = (False, s\<lparr>buffer := drop k (buffer s)\<rparr>) \<or>
       (\<exists>n. scan s = (True, parse_frame (take n (drop k (buffer s))) (s\<lparr>buffer := drop (k + n) (buffer s)\<rparr>)))"
proof (induction s rule: scan.induct)
  case (1 s)
  let ?b = "buffer s"
  let ?n = "unat (?b ! 1) + 2"
  consider (short) "length ?b < 4"
    | (skip) "4 \<le> length ?b" "?b ! 0 \<notin> set address_values \<or> unat (?b ! 1) > CRSF_MAX_PACKET_SIZE"
    | (wait) "4 \<le> length ?b" "?b ! 0 \<in> set address_values" "unat (?b ! 1) \<le> CRSF_MAX_PACKET_SIZE" "length ?b < ?n"
    | (frame) "4 \<le> length ?b" "?b ! 0 \<in> set address_values" "unat (?b ! 1) \<le> CRSF_MAX_PACKET_SIZE" "?n \<le> length ?b"
    by linarith
  then show ?case
  proof cases
    case short
    then have "scan s = (False, s\<lparr>buffer := drop 0 ?b\<rparr>)"
      by (subst scan.simps) simp
    then show ?thesis by blast
  next
    case skip
    then have eq: "scan s = scan (s\<lparr>buffer := tl ?b\<rparr>)"
      by (subst scan.simps) (auto simp: Let_def)
    from skip "1.IH" obtain k where
      "scan (s\<lparr>buffer := tl ?b\<rparr>) = (False, s\<lparr>buffer := drop k (tl ?b)\<rparr>) \<or>
       (\<exists>n. scan (s\<lparr>buffer := tl ?b\<rparr>) = (True, parse_frame (take n (drop k (tl ?b))) (s\<lparr>buffer := drop (k + n) (tl ?b)\<rparr>)))"
      by (fastforce simp: Let_def)
    then have "scan s = (False, s\<lparr>buffer := drop (Suc k) ?b\<rparr>) \<or>
       (\<exists>n. scan s = (True, parse_frame (take n (drop (Suc k) ?b)) (s\<lparr>buffer := drop (Suc k + n) ?b\<rparr>)))"
      by (simp add: eq drop_Suc)
    then show ?thesis by blast
  next
    case wait
    then have "scan s = (False, s\<lparr>buffer := drop 0 ?b\<rparr>)"
      by (subst scan.simps) (simp add: Let_def)
    then show ?thesis by blast
  next
    case frame
    then have "scan s = (True, parse_frame (take ?n (drop 0 ?b)) (s\<lparr>buffer := drop (0 + ?n) ?b\<rparr>))"
      by (subst scan.simps) (simp add: Let_def)
    then show ?thesis by blast
  qed
qed

subsection \<open>Dispatch and extraction\<close>

text \<open>
  Claim C2. A frame of at least 4 bytes whose last byte differs from the CRC8 of the bytes
  from the type field to the end of the payload (\<^verbatim>\<open>frame[2:-1]\<close>) is dropped:
  \<open>parse_frame\<close> adds 1 to \<open>error_count\<close> and changes nothing else, so
  \<open>frame_count\<close>, the channels and the seven link-statistics fields keep their values.
\<close>

theorem parse_frame_crc_mismatch:
  assumes "4 \<le> length frame"
    and "uint (last frame) \<noteq> calculate_crc (butlast (drop 2 frame))"
  shows "parse_frame frame s = s\<lparr>error_count := error_count s + 1\<rparr>"
  using assms by (simp add: parse_frame_def Let_def)

theorem parse_frame_crc_mismatch_witness:
  "4 \<le> length [0xC8, 9, 0x14, 50, 48, 75, 0xF6, 1, 2, 20, 3 :: byte]
   \<and> uint (last [0xC8, 9, 0x14, 50, 48, 75, 0xF6, 1, 2, 20, 3 :: byte])
       \<noteq> calculate_crc (butlast (drop 2 [0xC8, 9, 0x14, 50, 48, 75, 0xF6, 1, 2, 20, 3]))
   \<and> parse_frame [0xC8, 9, 0x14, 50, 48, 75, 0xF6, 1, 2, 20, 3] init
       = init\<lparr>error_count := error_count init + 1\<rparr>"
proof -
  have len: "4 \<le> length [0xC8, 9, 0x14, 50, 48, 75, 0xF6, 1, 2, 20, 3 :: byte]"
    by simp
  have crc: "uint (last [0xC8, 9, 0x14, 50, 48, 75, 0xF6, 1, 2, 20, 3 :: byte])
       \<noteq> calculate_crc (butlast (drop 2 [0xC8, 9, 0x14, 50, 48, 75, 0xF6, 1, 2, 20, 3]))"
    by code_simp
  from len crc parse_frame_crc_mismatch [OF len crc, of init] show ?thesis
    by blast
qed

text \<open>
  Claim C1. One iteration of the loop of \<^verbatim>\<open>read_frame\<close> on a buffer of at least 4
  bytes: if the first byte is not a known address or the second byte, the declared length,
  exceeds 64, the first byte is removed and the loop runs again on the rest; if the buffer
  holds fewer than declared length + 2 bytes, the call returns \<open>False\<close> and the state is
  unchanged; otherwise the first declared length + 2 bytes leave the buffer as the frame
  that is parsed, and the call returns \<open>True\<close>. A whole call removes some leading bytes
  and parses at most one frame.
\<close>

theorem scan_step:
  assumes "4 \<le> length (buffer s)"
  shows "(buffer s ! 0 \<notin> set address_values \<or> unat (buffer s ! 1) > 64
            \<longrightarrow> scan s = scan (s\<lparr>buffer := tl (buffer s)\<rparr>))
       \<and> (buffer s ! 0 \<in> set address_values \<and> unat (buffer s ! 1) \<le> 64
            \<and> length (buffer s) < unat (buffer s ! 1) + 2
            \<longrightarrow> scan s = (False, s))
       \<and> (buffer s ! 0 \<in> set address_values \<and> unat (buffer s ! 1) \<le> 64
            \<and> unat (buffer s ! 1) + 2 \<le> length (buffer s)
            \<longrightarrow> scan s = (True, parse_frame (take (unat (buffer s ! 1) + 2) (buffer s))
                                 (s\<lparr>buffer := drop (unat (buffer s ! 1) + 2) (buffer s)\<rparr>))
              \<and> buffer (snd (scan s)) = drop (unat (buffer s ! 1) + 2) (buffer s))
       \<and> (\<exists>k. scan s = (False, s\<lparr>buffer := drop k (buffer s)\<rparr>) \<or>
             (\<exists>n. scan s = (True, parse_frame (take n (drop k (buffer s)))
                                   (s\<lparr>buffer := drop (k + n) (buffer s)\<rparr>))))"
proof (intro conjI impI)
  assume "buffer s ! 0 \<notin> set address_values \<or> unat (buffer s ! 1) > 64"
  with assms show "scan s = scan (s\<lparr>buffer := tl (buffer s)\<rparr>)"
    by (subst scan.simps) (auto simp: Let_def CRSF_MAX_PACKET_SIZE_def)
next
  assume "buffer s ! 0 \<in> set address_values \<and> unat (buffer s ! 1) \<le> 64
            \<and> length (buffer s) < unat (buffer s ! 1) + 2"
  with assms show "scan s = (False, s)"
    by (subst scan.simps) (simp add: Let_def CRSF_MAX_PACKET_SIZE_def)
next
  assume a: "buffer s ! 0 \<in> set address_values \<and> unat (buffer s ! 1) \<le> 64
            \<and> unat (buffer s ! 1) + 2 \<le> length (buffer s)"
  with assms show eq: "scan s = (True, parse_frame (take (unat (buffer s ! 1) + 2) (buffer s))
                                 (s\<lparr>buffer := drop (unat (buffer s ! 1) + 2) (buffer s)\<rparr>))"
    by (subst scan.simps) (simp add: Let_def CRSF_MAX_PACKET_SIZE_def)
  show "buffer (snd (scan s)) = drop (unat (buffer s ! 1) + 2) (buffer s)"
    by (simp add: eq)
next
  show "\<exists>k. scan s = (False, s\<lparr>buffer := drop k (buffer s)\<rparr>) \<or>
             (\<exists>n. scan s = (True, parse_frame (take n (drop k (buffer s)))
                                   (s\<lparr>buffer := drop (k + n) (buffer s)\<rparr>)))"
    by (rule scan_cases)
qed

theorem scan_step_witness:
  "4 \<le> length (buffer (init\<lparr>buffer := [1, 2, 3, 4, 5]\<rparr>))
   \<and> scan (init\<lparr>buffer := [1, 2, 3, 4, 5]\<rparr>) = scan (init\<lparr>buffer := [2, 3, 4, 5]\<rparr>)
   \<and> 4 \<le> length (buffer (init\<lparr>buffer := [0xC8, 9, 0x14, 50]\<rparr>))
   \<and> scan (init\<lparr>buffer := [0xC8, 9, 0x14, 50]\<rparr>) = (False, init\<lparr>buffer := [0xC8, 9, 0x14, 50]\<rparr>)
   \<and> 4 \<le> length (buffer (init\<lparr>buffer := [0xC8, 2, 0x14, 50, 7]\<rparr>))
   \<and> scan (init\<lparr>buffer := [0xC8, 2, 0x14, 50, 7]\<rparr>)
        = (True, parse_frame [0xC8, 2, 0x14, 50] (init\<lparr>buffer := [7]\<rparr>))"
proof -
  let ?a = "init\<lparr>buffer := [1, 2, 3, 4, 5]\<rparr>"
  let ?b = "init\<lparr>buffer := [0xC8, 9, 0x14, 50]\<rparr>"
  let ?c = "init\<lparr>buffer := [0xC8, 2, 0x14, 50, 7]\<rparr>"
  have a: "4 \<le> length (buffer ?a)" "buffer ?a ! 0 \<notin> set address_values \<or> unat (buffer ?a ! 1) > 64"
    by code_simp+
  have b: "4 \<le> length (buffer ?b)"
    "buffer ?b ! 0 \<in> set address_values \<and> unat (buffer ?b ! 1) \<le> 64
       \<and> length (buffer ?b) < unat (buffer ?b ! 1) + 2"
    by code_simp+
  have c: "4 \<le> length (buffer ?c)"
    "buffer ?c ! 0 \<in> set address_values \<and> unat (buffer ?c ! 1) \<le> 64
       \<and> unat (buffer ?c ! 1) + 2 \<le> length (buffer ?c)"
    by code_simp+
  have "scan ?a = scan (?a\<lparr>buffer := tl (buffer ?a)\<rparr>)"
    using scan_step [OF a(1)] a(2) by blast
  moreover have "scan ?b = (False, ?b)"
    using scan_step [OF b(1)] b(2) by blast
  moreover have "scan ?c = (True, parse_frame (take (unat (buffer ?c ! 1) + 2) (buffer ?c))
                                 (?c\<lparr>buffer := drop (unat (buffer ?c ! 1) + 2) (buffer ?c)\<rparr>))"
    using scan_step [OF c(1)] c(2) by blast
  ultimately show ?thesis
    by simp
qed

text \<open>
  Claim C10. A candidate frame whose declared length is 0 or 1 has 2 or 3 bytes in all.
  \<^verbatim>\<open>read_frame\<close> removes it from the buffer and returns \<open>True\<close>;
  \<^verbatim>\<open>_parse_frame\<close> returns at once for a frame shorter than 4 bytes, so no CRC is
  checked and no counter, channel or link-statistics field changes: the state after the
  call differs from the state before only in the buffer (and the emptied port queue).
\<close>

theorem read_frame_short_frame:
  assumes "serial s = Some q"
    and "b = buffer s @ q"
    and "4 \<le> length b"
    and "b ! 0 \<in> set address_values"
    and "unat (b ! 1) \<le> 1"
  shows "read_frame s = (True, s\<lparr>serial := Some [], buffer := drop (unat (b ! 1) + 2) b\<rparr>)"
proof -
  let ?t = "s\<lparr>serial := Some [], buffer := b\<rparr>"
  have t: "(if length q > 0 then s\<lparr>serial := Some [], buffer := buffer s @ q\<rparr> else s) = ?t"
    using assms(1,2) by (cases q) simp_all
  have "scan ?t = (True, parse_frame (take (unat (b ! 1) + 2) b) (?t\<lparr>buffer := drop (unat (b ! 1) + 2) b\<rparr>))"
    using assms(3,4,5) by (subst scan.simps) (simp add: Let_def CRSF_MAX_PACKET_SIZE_def)
  moreover have "parse_frame (take (unat (b ! 1) + 2) b) u = u" for u
    using assms(5) by (simp add: parse_frame_def)
  moreover have "read_frame s = scan ?t"
    by (simp only: read_frame_def assms(1) option.case t)
  ultimately show ?thesis
    by simp
qed

theorem read_frame_short_frame_witness:
  "serial (feed [0xC8, 1, 0x14, 7, 9] (open_port init)) = Some [0xC8, 1, 0x14, 7, 9]
   \<and> 4 \<le> length [0xC8, 1, 0x14, 7, 9 :: byte]
   \<and> [0xC8, 1, 0x14, 7, 9] ! 0 \<in> set address_values
   \<and> unat ([0xC8, 1, 0x14, 7, 9 :: byte] ! 1) \<le> 1
   \<and> read_frame (feed [0xC8, 1, 0x14, 7, 9] (open_port init))
        = (True, (open_port init)\<lparr>buffer := [7, 9]\<rparr>)"
proof -
  let ?s = "feed [0xC8, 1, 0x14, 7, 9] (open_port init)"
  let ?b = "[0xC8, 1, 0x14, 7, 9 :: byte]"
  have 1: "serial ?s = Some ?b"
    by (simp add: feed_def open_port_def init_def)
  have 2: "?b = buffer ?s @ ?b"
    by (simp add: feed_def open_port_def init_def)
  have 3: "4 \<le> length ?b"
    by simp
  have 4: "?b ! 0 \<in> set address_values"
    by code_simp
  have 5: "unat (?b ! 1) \<le> 1"
    by simp
  have "read_frame ?s = (True, ?s\<lparr>serial := Some [], buffer := drop (unat (?b ! 1) + 2) ?b\<rparr>)"
    by (rule read_frame_short_frame [OF 1 2 3 4 5])
  moreover have "?s\<lparr>serial := Some [], buffer := drop (unat (?b ! 1) + 2) ?b\<rparr>
      = (open_port init)\<lparr>buffer := [7, 9]\<rparr>"
    by (simp add: feed_def open_port_def init_def)
  ultimately show ?thesis
    using 1 3 4 5 by simp
qed

subsection \<open>Invariants of the decoder state\<close>

text \<open>
  A property of the state that \<open>parse_frame\<close> keeps, and that does not depend on the
  buffer or on the port, holds after any sequence of events once it holds at the start.
\<close>

lemma scan_preserves:
  assumes pf: "\<And>f t. P t \<Longrightarrow> P (parse_frame f t)"
    and buf: "\<And>t b. P t \<Longrightarrow> P (t\<lparr>buffer := b\<rparr>)"
    and s: "P s"
  shows "P (snd (scan s))"
proof -
  from scan_cases [of s] obtain k where
    "scan s = (False, s\<lparr>buffer := drop k (buffer s)\<rparr>) \<or>
     (\<exists>n. scan s = (True, parse_frame (take n (drop k (buffer s))) (s\<lparr>buffer := drop (k + n) (buffer s)\<rparr>)))"
    by blast
  then show ?thesis
    using pf buf s by auto
qed

lemma read_frame_preserves:
  assumes pf: "\<And>f t. P t \<Longrightarrow> P (parse_frame f t)"
    and buf: "\<And>t b. P t \<Longrightarrow> P (t\<lparr>buffer := b\<rparr>)"
    and ser: "\<And>t q. P t \<Longrightarrow> P (t\<lparr>serial := q\<rparr>)"
    and s: "P s"
  shows "P (snd (read_frame s))"
proof (cases "serial s")
  case None
  then show ?thesis using s by (simp add: read_frame_def)
next
  case (Some q)
  have "P (if length q > 0 then s\<lparr>serial := Some [], buffer := buffer s @ q\<rparr> else s)"
    using s buf ser by simp
  then have "P (snd (scan (if length q > 0 then s\<lparr>serial := Some [], buffer := buffer s @ q\<rparr> else s)))"
    using scan_preserves [where P = P, OF pf buf] by blast
  then show ?thesis using Some by (simp add: read_frame_def)
qed

lemma run_preserves:
  assumes pf: "\<And>f t. P t \<Longrightarrow> P (parse_frame f t)"
    and buf: "\<And>t b. P t \<Longrightarrow> P (t\<lparr>buffer := b\<rparr>)"
    and ser: "\<And>t q. P t \<Longrightarrow> P (t\<lparr>serial := q\<rparr>)"
    and s: "P s"
  shows "P (run evs s)"
  using s unfolding run_def
proof (induction evs arbitrary: s)
  case Nil
  then show ?case by simp
next
  case (Cons e evs)
  have "P (step e s)"
  proof (cases e)
    case Read_frame
    then show ?thesis
      using read_frame_preserves [where P = P, OF pf buf ser Cons.prems] by simp
  qed (use Cons.prems ser in \<open>auto simp: open_port_def feed_def split: option.splits\<close>)
  then show ?case using Cons.IH by simp
qed

text \<open>On a list of 16 channels the assignment loop writes every element.\<close>

lemma foldl_update_upt:
  "k \<le> length ch \<Longrightarrow> foldl (\<lambda>ch i. ch[i := f i]) ch [0..<k] = map f [0..<k] @ drop k ch"
proof (induction k)
  case 0
  then show ?case by simp
next
  case (Suc k)
  then have "foldl (\<lambda>ch i. ch[i := f i]) ch [0..<Suc k] = (map f [0..<k] @ drop k ch)[k := f k]"
    by simp
  also have "\<dots> = map f [0..<k] @ (drop k ch)[0 := f k]"
    by (simp add: list_update_append)
  also have "(drop k ch)[0 := f k] = f k # drop (Suc k) ch"
    using Suc.prems by (metis Cons_nth_drop_Suc Suc_le_lessD list_update_code(2))
  finally show ?case by simp
qed

lemma channels_parse_rc_channels:
  assumes "length (channels s) = 16" and "22 \<le> length p"
  shows "channels (parse_rc_channels p s)
           = map (\<lambda>i. drop_bit (i * 11) (from_bytes_little (take 22 p)) AND 0x7FF) [0..<16]"
  using assms foldl_update_upt [of 16 "channels s"]
  by (simp add: parse_rc_channels_def Let_def)

lemma channels_range_parse_frame:
  assumes "length (channels s) = 16 \<and> list_all (\<lambda>c. 0 \<le> c \<and> c \<le> 2047) (channels s)"
  shows "length (channels (parse_frame f s)) = 16
           \<and> list_all (\<lambda>c. 0 \<le> c \<and> c \<le> 2047) (channels (parse_frame f s))"
proof -
  have rc: "length (channels (parse_rc_channels p t)) = 16
           \<and> list_all (\<lambda>c. 0 \<le> c \<and> c \<le> 2047) (channels (parse_rc_channels p t))"
    if "length (channels t) = 16 \<and> list_all (\<lambda>c. 0 \<le> c \<and> c \<le> 2047) (channels t)" for p t
  proof (cases "length p < 22")
    case True
    then show ?thesis using that by (simp add: parse_rc_channels_def)
  next
    case False
    then show ?thesis
      using that by (simp add: channels_parse_rc_channels list_all_iff)
  qed
  show ?thesis
    using assms rc by (simp add: parse_frame_def Let_def)
qed

text \<open>
  Claim C6. From a freshly constructed decoder, after any sequence of events (the port is
  opened or closed, any bytes arrive, \<^verbatim>\<open>read_frame\<close> is called), the channel list
  still has 16 elements and each of them lies in 0..2047.
\<close>

theorem channels_in_range:
  "length (channels (run evs init)) = 16
     \<and> list_all (\<lambda>c. 0 \<le> c \<and> c \<le> 2047) (channels (run evs init))"
proof (rule run_preserves [where P = "\<lambda>s. length (channels s) = 16
     \<and> list_all (\<lambda>c. 0 \<le> c \<and> c \<le> 2047) (channels s)"])
  show "length (channels init) = 16 \<and> list_all (\<lambda>c. 0 \<le> c \<and> c \<le> 2047) (channels init)"
    by (simp add: init_def list_all_iff)
qed (simp_all add: channels_range_parse_frame)

text \<open>
  Claim C3. The claim keeps \<open>link_quality\<close> in 0..100, the range that the comment on
  the assignment in \<^verbatim>\<open>_parse_link_statistics\<close> gives for the field and that
  \<^verbatim>\<open>test_link_statistics\<close> requires. The assignment stores payload byte 2 without a
  range check: on a fresh decoder, one frame with a correct CRC whose payload byte 2 is
  200 is counted as a good frame and leaves \<open>link_quality = 200\<close>, above 100.
\<close>

theorem link_quality_stored_unchecked:
  "link_quality (run [Open, Receive [0xC8, 12, 0x14, 50, 48, 200, 0xF6, 1, 2, 20, 0, 0, 0, 71],
       Read_frame] init) = 200
   \<and> frame_count (run [Open, Receive [0xC8, 12, 0x14, 50, 48, 200, 0xF6, 1, 2, 20, 0, 0, 0, 71],
       Read_frame] init) = 1
   \<and> error_count (run [Open, Receive [0xC8, 12, 0x14, 50, 48, 200, 0xF6, 1, 2, 20, 0, 0, 0, 71],
       Read_frame] init) = 0"
  by code_simp

subsection \<open>Noise\<close>

text \<open>
  On a buffer without any address byte the loop removes one byte per iteration and stops
  when fewer than 4 bytes are left.
\<close>

lemma scan_noise:
  "\<forall>x \<in> set (buffer s). x \<notin> set address_values \<Longrightarrow>
     scan s = (False, s\<lparr>buffer := drop (length (buffer s) - 3) (buffer s)\<rparr>)"
proof (induction s rule: scan.induct)
  case (1 s)
  show ?case
  proof (cases "4 \<le> length (buffer s)")
    case False
    then show ?thesis by (subst scan.simps) simp
  next
    case True
    then obtain x xs where b: "buffer s = x # xs"
      by (cases "buffer s") auto
    with "1.prems" have x: "buffer s ! 0 \<notin> set address_values" and xs: "\<forall>y \<in> set xs. y \<notin> set address_values"
      by auto
    have "scan s = scan (s\<lparr>buffer := tl (buffer s)\<rparr>)"
      using True x by (subst scan.simps) simp
    also have "\<dots> = (False, s\<lparr>buffer := drop (length xs - 3) xs\<rparr>)"
      using "1.IH"(1) [OF True x] xs b by simp
    also have "drop (length xs - 3) xs = drop (length (buffer s) - 3) (buffer s)"
    proof -
      have "length (buffer s) - 3 = Suc (length xs - 3)"
        using True b by simp
      then show ?thesis
        by (simp add: b)
    qed
    finally show ?thesis .
  qed
qed

text \<open>
  Claim C7, as amended. For an input without any address byte, fed to a fresh open decoder,
  the first call of \<^verbatim>\<open>read_frame\<close> returns \<open>False\<close>, so draining is this one call.
  It has removed the leading bytes one by one until fewer than 4 were left: the last
  3 bytes of the input (all of it, if it is shorter) stay in the buffer, \<open>length bs - 3\<close>
  bytes are gone, and \<open>frame_count\<close> and \<open>error_count\<close> are still 0. The buffer is not
  emptied, as the claim has it: the loop runs only while 4 bytes are buffered.
\<close>

theorem noise_leaves_tail:
  assumes "set bs \<inter> set address_values = {}"
  shows "read_frame (feed bs (open_port init))
           = (False, (open_port init)\<lparr>buffer := drop (length bs - 3) bs\<rparr>)
       \<and> drain (feed bs (open_port init)) = (open_port init)\<lparr>buffer := drop (length bs - 3) bs\<rparr>
       \<and> frame_count (drain (feed bs (open_port init))) = 0
       \<and> error_count (drain (feed bs (open_port init))) = 0"
proof -
  let ?t = "(open_port init)\<lparr>buffer := bs\<rparr>"
  have "read_frame (feed bs (open_port init)) = scan ?t"
    by (cases bs) (simp_all add: read_frame_def feed_def open_port_def init_def)
  moreover have "scan ?t = (False, ?t\<lparr>buffer := drop (length (buffer ?t) - 3) (buffer ?t)\<rparr>)"
    using assms by (intro scan_noise) auto
  ultimately have rf: "read_frame (feed bs (open_port init))
           = (False, (open_port init)\<lparr>buffer := drop (length bs - 3) bs\<rparr>)"
    by simp
  then have "drain (feed bs (open_port init)) = (open_port init)\<lparr>buffer := drop (length bs - 3) bs\<rparr>"
    by (subst drain.simps) simp
  with rf show ?thesis
    by (simp add: open_port_def init_def)
qed

theorem noise_leaves_tail_witness:
  "set [1, 2, 3, 4, 5 :: byte] \<inter> set address_values = {}
   \<and> drain (feed [1, 2, 3, 4, 5] (open_port init)) = (open_port init)\<lparr>buffer := [3, 4, 5]\<rparr>"
proof -
  have h: "set [1, 2, 3, 4, 5 :: byte] \<inter> set address_values = {}"
    by code_simp
  from noise_leaves_tail [OF h] h show ?thesis
    by simp
qed

theorem noise_not_emptied_counterexample:
  "\<not> (set [1, 2, 3, 4, 5 :: byte] \<inter> set address_values = {}
        \<longrightarrow> buffer (drain (feed [1, 2, 3, 4, 5] (open_port init))) = []
            \<and> frame_count (drain (feed [1, 2, 3, 4, 5] (open_port init))) = 0
            \<and> error_count (drain (feed [1, 2, 3, 4, 5] (open_port init))) = 0)"
  by code_simp

subsection \<open>Link statistics\<close>

text \<open>
  Claim C8. The claim reads \<open>rssi_1\<close> and \<open>rssi_2\<close> as signed 8-bit values.
  \<^verbatim>\<open>_parse_link_statistics\<close> stores payload bytes 0 and 1 as they are, an integer in
  0..255, while it does convert byte 3 for \<open>snr\<close>: for the bytes 206 and 204, which are
  -50 and -52 as signed 8-bit values, the fields hold 206 and 204.
\<close>

theorem rssi_stored_unsigned:
  "rssi_1 (parse_link_statistics [206, 204, 75, 0xF6, 1, 2, 20, 0, 0, 0] init) = 206
   \<and> rssi_2 (parse_link_statistics [206, 204, 75, 0xF6, 1, 2, 20, 0, 0, 0] init) = 204
   \<and> sint (206 :: byte) = - 50 \<and> sint (204 :: byte) = - 52"
  by code_simp

text \<open>
  Claim C9, as amended. \<^verbatim>\<open>_parse_link_statistics\<close> skips a payload of fewer than 10
  bytes. The frame of the claim, with the 7-byte payload 50, 48, 75, 0xF6, 1, 2, 20 and the
  correct CRC 4, is counted in \<open>frame_count\<close> and leaves all seven fields at 0. With three
  more payload bytes (here 0, 0, 0; the CRC is then 115) the frame is decoded: bytes 0 to 6
  go to \<open>rssi_1\<close>, \<open>rssi_2\<close>, \<open>link_quality\<close>, \<open>snr\<close>, \<open>active_antenna\<close>,
  \<open>rf_mode\<close> and \<open>tx_power\<close>, so \<open>link_quality = 75\<close>, and \<open>snr = -10\<close> is byte
  0xF6 read as a signed 8-bit value.
\<close>

theorem link_statistics_end_to_end:
  "drain (feed [0xC8, 12, 0x14, 50, 48, 75, 0xF6, 1, 2, 20, 0, 0, 0, 115] (open_port init))
     = (open_port init)\<lparr>rssi_1 := 50, rssi_2 := 48, link_quality := 75, snr := - 10,
          active_antenna := 1, rf_mode := 2, tx_power := 20, frame_count := 1\<rparr>
   \<and> drain (feed [0xC8, 9, 0x14, 50, 48, 75, 0xF6, 1, 2, 20, 4] (open_port init))
     = (open_port init)\<lparr>frame_count := 1\<rparr>"
  by code_simp

theorem link_statistics_short_payload_counterexample:
  "\<not> (link_quality (drain (feed [0xC8, 9, 0x14, 50, 48, 75, 0xF6, 1, 2, 20, 4] (open_port init))) = 75
      \<and> snr (drain (feed [0xC8, 9, 0x14, 50, 48, 75, 0xF6, 1, 2, 20, 4] (open_port init))) = - 10)"
  by code_simp

subsection \<open>Round trip of the channel values\<close>

text \<open>
  Reading bytes back as a little-endian number gives the low \<open>8 * n\<close> bits of the number
  they were cut from; the packed number keeps value \<open>i\<close> in bits \<open>11 * i\<close> to
  \<open>11 * i + 10\<close>.
\<close>

lemma from_bytes_little_to_bytes_little:
  "from_bytes_little (to_bytes_little n x) = take_bit (8 * n) x"
proof (induction n arbitrary: x)
  case 0
  then show ?case by (simp add: to_bytes_little_def)
next
  case (Suc n)
  have "to_bytes_little (Suc n) x = word_of_int x # to_bytes_little n (drop_bit 8 x)"
    by (simp add: to_bytes_little_def upt_conv_Cons map_Suc_upt [symmetric] add.commute del: upt_Suc)
  then have "from_bytes_little (to_bytes_little (Suc n) x)
      = x mod 2 ^ 8 + 2 ^ 8 * ((x div 2 ^ 8) mod 2 ^ (8 * n))"
    by (simp add: Suc.IH uint_word_of_int take_bit_eq_mod drop_bit_eq_div)
  also have "\<dots> = x mod (2 ^ 8 * 2 ^ (8 * n))"
    using zmod_zmult2_eq [of "2 ^ (8 * n)" x "2 ^ 8"] by simp
  finally show ?case
    by (simp add: take_bit_eq_mod power_add)
qed

lemma pack_bits_Nil: "pack_bits [] = 0"
  by (simp add: pack_bits_def)

lemma pack_bits_Cons: "pack_bits (v # vs) = v + 2048 * pack_bits vs"
proof -
  have "pack_bits (v # vs)
      = v + sum_list (map (\<lambda>i. 2048 * push_bit (i * 11) (vs ! i)) [0..<length vs])"
    by (simp add: pack_bits_def upt_conv_Cons map_Suc_upt [symmetric] comp_def push_bit_eq_mult
        power_add mult_ac del: upt_Suc)
  then show ?thesis
    by (simp add: pack_bits_def sum_list_const_mult)
qed

lemma pack_bits_bounds:
  "list_all (\<lambda>v. 0 \<le> v \<and> v \<le> 2047) vs \<Longrightarrow>
     0 \<le> pack_bits vs \<and> pack_bits vs < 2 ^ (11 * length vs)"
proof (induction vs)
  case Nil
  then show ?case by (simp add: pack_bits_Nil)
next
  case (Cons v vs)
  then have v: "0 \<le> v" "v \<le> 2047"
    and p: "0 \<le> pack_bits vs" "pack_bits vs + 1 \<le> 2 ^ (11 * length vs)"
    by simp_all
  have "v + 2048 * pack_bits vs < 2048 * (pack_bits vs + 1)"
    using v by simp
  also have "\<dots> \<le> 2048 * 2 ^ (11 * length vs)"
    using p(2) by (intro mult_left_mono) simp_all
  finally show ?case
    using v p(1) by (simp add: pack_bits_Cons power_add)
qed

lemma pack_bits_nth:
  "list_all (\<lambda>v. 0 \<le> v \<and> v \<le> 2047) vs \<Longrightarrow> i < length vs \<Longrightarrow>
     (pack_bits vs div 2 ^ (11 * i)) mod 2048 = vs ! i"
proof (induction vs arbitrary: i)
  case Nil
  then show ?case by simp
next
  case (Cons v vs)
  then have v: "0 \<le> v" "v < 2048"
    by simp_all
  show ?case
  proof (cases i)
    case 0
    then show ?thesis using v by (simp add: pack_bits_Cons)
  next
    case (Suc j)
    have "(v + 2048 * pack_bits vs) div (2048 * 2 ^ (11 * j))
        = ((v + 2048 * pack_bits vs) div 2048) div 2 ^ (11 * j)"
      by (rule zdiv_zmult2_eq) simp
    also have "(v + 2048 * pack_bits vs) div 2048 = pack_bits vs"
      using v by simp
    finally show ?thesis
      using Cons Suc by (simp add: pack_bits_Cons power_add)
  qed
qed

text \<open>
  Claim C4. Sixteen values in 0..2047, packed into 22 bytes in the CRSF layout and given to
  \<^verbatim>\<open>_parse_rc_channels\<close> as payload, come back as the channel list.
\<close>

theorem rc_channels_round_trip:
  assumes "length vs = 16"
    and "list_all (\<lambda>v. 0 \<le> v \<and> v \<le> 2047) vs"
    and "length (channels s) = 16"
  shows "length (pack_channels vs) = 22
       \<and> channels (parse_rc_channels (pack_channels vs) s) = vs"
proof -
  have len: "length (pack_channels vs) = 22"
    by (simp add: pack_channels_def to_bytes_little_def)
  have "from_bytes_little (take 22 (pack_channels vs)) = take_bit 176 (pack_bits vs)"
    using from_bytes_little_to_bytes_little [of 22 "pack_bits vs"] len
    by (simp add: pack_channels_def)
  also have "\<dots> = pack_bits vs"
    using pack_bits_bounds [OF assms(2)] assms(1) by (simp add: take_bit_int_eq_self)
  finally have "from_bytes_little (take 22 (pack_channels vs)) = pack_bits vs" .
  then have bits: "from_bytes_little (pack_channels vs) = pack_bits vs"
    using len by simp
  have mask: "k AND 0x7FF = k mod 2048" for k :: int
    using take_bit_eq_mask [of 11 k] by (simp add: take_bit_eq_mod mask_eq_exp_minus_1)
  have "channels (parse_rc_channels (pack_channels vs) s)
      = map (\<lambda>i. (pack_bits vs div 2 ^ (11 * i)) mod 2048) [0..<16]"
    using assms(3) len
    by (simp add: channels_parse_rc_channels bits mask drop_bit_eq_div mult.commute del: upt_Suc)
  also have "\<dots> = map (\<lambda>i. vs ! i) [0..<length vs]"
    using assms(1) pack_bits_nth [OF assms(2)] by (intro map_cong) simp_all
  also have "\<dots> = vs"
    by (rule map_nth)
  finally show ?thesis
    using len by simp
qed

theorem rc_channels_round_trip_witness:
  "length [992, 0, 2047, 1, 172, 1811, 5, 6, 7, 8, 9, 10, 11, 12, 13, 1024 :: int] = 16
   \<and> list_all (\<lambda>v. 0 \<le> v \<and> v \<le> 2047)
        [992, 0, 2047, 1, 172, 1811, 5, 6, 7, 8, 9, 10, 11, 12, 13, 1024 :: int]
   \<and> length (channels init) = 16
   \<and> pack_channels [992, 0, 2047, 1, 172, 1811, 5, 6, 7, 8, 9, 10, 11, 12, 13, 1024]
       = [224, 3, 192, 255, 3, 192, 138, 137, 23, 192, 0, 7, 64, 64, 2, 20, 176, 0, 6, 52, 0, 128]
   \<and> channels (parse_rc_channels
         [224, 3, 192, 255, 3, 192, 138, 137, 23, 192, 0, 7, 64, 64, 2, 20, 176, 0, 6, 52, 0, 128] init)
       = [992, 0, 2047, 1, 172, 1811, 5, 6, 7, 8, 9, 10, 11, 12, 13, 1024]"
proof -
  let ?vs = "[992, 0, 2047, 1, 172, 1811, 5, 6, 7, 8, 9, 10, 11, 12, 13, 1024 :: int]"
  have 1: "length ?vs = 16"
    by simp
  have 2: "list_all (\<lambda>v. 0 \<le> v \<and> v \<le> 2047) ?vs"
    by simp
  have 3: "length (channels init) = 16"
    by (simp add: init_def)
  have 4: "pack_channels ?vs
       = [224, 3, 192, 255, 3, 192, 138, 137, 23, 192, 0, 7, 64, 64, 2, 20, 176, 0, 6, 52, 0, 128]"
    by code_simp
  from rc_channels_round_trip [OF 1 2 3] 1 2 3 4 show ?thesis
    by simp
qed

subsection \<open>Chunking\<close>

text \<open>
  The loop decides on the first two bytes of the buffer and on whether the frame they
  announce is complete. Bytes appended to the buffer therefore never change a step the loop
  has taken: where it returned a frame it returns the same frame, and where it stopped to
  wait it goes on from the state it stopped in.
\<close>

lemma parse_frame_buffer_update:
  "parse_frame f (s\<lparr>buffer := b\<rparr>) = (parse_frame f s)\<lparr>buffer := b\<rparr>"
  by (simp add: parse_frame_def parse_rc_channels_def parse_link_statistics_def Let_def)

lemma scan_serial: "serial (snd (scan s)) = serial s"
  using scan_cases [of s] by auto

lemma scan_append:
  "(scan s = (True, s') \<longrightarrow>
      scan (s\<lparr>buffer := buffer s @ e\<rparr>) = (True, s'\<lparr>buffer := buffer s' @ e\<rparr>))
   \<and> (scan s = (False, s') \<longrightarrow>
      scan (s\<lparr>buffer := buffer s @ e\<rparr>) = scan (s'\<lparr>buffer := buffer s' @ e\<rparr>))"
proof (induction s rule: scan.induct)
  case (1 s)
  let ?b = "buffer s"
  let ?n = "unat (?b ! 1) + 2"
  let ?se = "s\<lparr>buffer := ?b @ e\<rparr>"
  consider (short) "length ?b < 4"
    | (skip) "4 \<le> length ?b" "?b ! 0 \<notin> set address_values \<or> unat (?b ! 1) > CRSF_MAX_PACKET_SIZE"
    | (wait) "4 \<le> length ?b" "?b ! 0 \<in> set address_values" "unat (?b ! 1) \<le> CRSF_MAX_PACKET_SIZE" "length ?b < ?n"
    | (frame) "4 \<le> length ?b" "?b ! 0 \<in> set address_values" "unat (?b ! 1) \<le> CRSF_MAX_PACKET_SIZE" "?n \<le> length ?b"
    by linarith
  then show ?case
  proof cases
    case short
    then have "scan s = (False, s)"
      by (subst scan.simps) simp
    then show ?thesis by auto
  next
    case skip
    let ?t = "s\<lparr>buffer := tl ?b\<rparr>"
    have eq: "scan s = scan ?t"
      using skip by (subst scan.simps) (auto simp: Let_def)
    have nth: "(?b @ e) ! 0 = ?b ! 0" "(?b @ e) ! 1 = ?b ! 1"
      using skip(1) by (auto simp: nth_append)
    have "scan ?se = scan (?se\<lparr>buffer := tl (?b @ e)\<rparr>)"
      using skip nth by (subst scan.simps) (auto simp: Let_def)
    also have "?se\<lparr>buffer := tl (?b @ e)\<rparr> = ?t\<lparr>buffer := buffer ?t @ e\<rparr>"
      using skip(1) by (cases ?b) simp_all
    finally have eqe: "scan ?se = scan (?t\<lparr>buffer := buffer ?t @ e\<rparr>)" .
    have "(scan ?t = (True, s') \<longrightarrow>
             scan (?t\<lparr>buffer := buffer ?t @ e\<rparr>) = (True, s'\<lparr>buffer := buffer s' @ e\<rparr>))
        \<and> (scan ?t = (False, s') \<longrightarrow>
             scan (?t\<lparr>buffer := buffer ?t @ e\<rparr>) = scan (s'\<lparr>buffer := buffer s' @ e\<rparr>))"
      using skip "1.IH" by (fastforce simp: Let_def)
    then show ?thesis
      by (simp add: eq eqe)
  next
    case wait
    then have "scan s = (False, s)"
      by (subst scan.simps) (simp add: Let_def)
    then show ?thesis by auto
  next
    case frame
    have nth: "(?b @ e) ! 0 = ?b ! 0" "(?b @ e) ! 1 = ?b ! 1"
      using frame(1) by (auto simp: nth_append)
    have s: "scan s = (True, parse_frame (take ?n ?b) (s\<lparr>buffer := drop ?n ?b\<rparr>))"
      using frame by (subst scan.simps) (simp add: Let_def)
    have "scan ?se = (True, parse_frame (take ?n (?b @ e)) (?se\<lparr>buffer := drop ?n (?b @ e)\<rparr>))"
      using frame nth by (subst scan.simps) (simp add: Let_def)
    also have "parse_frame (take ?n (?b @ e)) (?se\<lparr>buffer := drop ?n (?b @ e)\<rparr>)
        = (parse_frame (take ?n ?b) (s\<lparr>buffer := drop ?n ?b\<rparr>))
            \<lparr>buffer := buffer (parse_frame (take ?n ?b) (s\<lparr>buffer := drop ?n ?b\<rparr>)) @ e\<rparr>"
      using frame(4) by (simp add: parse_frame_buffer_update)
    finally show ?thesis
      using s by auto
  qed
qed

text \<open>
  A call of \<^verbatim>\<open>read_frame\<close> first moves the port's queue to the buffer; with an empty
  queue it is the loop alone. So draining, appending and draining again ends in the state
  that appending at once and draining ends in.
\<close>

lemma serial_update_same: "serial s = Some q \<Longrightarrow> s\<lparr>serial := Some q\<rparr> = s"
  by (cases s) simp

lemma read_frame_pulled: "serial s = Some [] \<Longrightarrow> read_frame s = scan s"
  by (simp add: read_frame_def)

lemma read_frame_pull:
  assumes "serial s = Some q"
  shows "read_frame s = scan (s\<lparr>serial := Some [], buffer := buffer s @ q\<rparr>)"
proof (cases q)
  case Nil
  have eq: "s\<lparr>serial := Some [], buffer := buffer s @ q\<rparr> = s"
    using assms Nil by (cases s) simp
  have "read_frame s = scan s"
    using assms Nil by (simp add: read_frame_def)
  then show ?thesis
    by (simp only: eq)
next
  case (Cons x xs)
  then show ?thesis
    using assms by (simp add: read_frame_def)
qed

lemma drain_cong: "read_frame s = read_frame t \<Longrightarrow> drain s = drain t"
  by (subst drain.simps, subst (2) drain.simps) simp

lemma drain_pull:
  assumes "serial s = Some q"
  shows "drain s = drain (s\<lparr>serial := Some [], buffer := buffer s @ q\<rparr>)"
  by (rule drain_cong) (simp add: read_frame_pull [OF assms] read_frame_pulled)

lemma serial_drain: "serial s = Some [] \<Longrightarrow> serial (drain s) = Some []"
proof (induction s rule: drain.induct)
  case (1 s)
  obtain ok s' where sc: "scan s = (ok, s')"
    by (cases "scan s")
  then have rf: "read_frame s = (ok, s')"
    using "1.prems" by (simp add: read_frame_pulled)
  have ser: "serial s' = Some []"
    using scan_serial [of s] sc "1.prems" by simp
  show ?case
  proof (cases ok)
    case True
    then have "drain s = drain s'"
      using rf by (subst drain.simps) simp
    then show ?thesis
      using "1.IH" [OF rf [symmetric] refl] True ser by simp
  next
    case False
    then have "drain s = s'"
      using rf by (subst drain.simps) simp
    then show ?thesis using ser by simp
  qed
qed

lemma drain_append_drain:
  "serial s = Some [] \<Longrightarrow>
     drain ((drain s)\<lparr>buffer := buffer (drain s) @ e\<rparr>) = drain (s\<lparr>buffer := buffer s @ e\<rparr>)"
proof (induction s rule: drain.induct)
  case (1 s)
  obtain ok s' where sc: "scan s = (ok, s')"
    by (cases "scan s")
  then have rf: "read_frame s = (ok, s')"
    using "1.prems" by (simp add: read_frame_pulled)
  have ser: "serial s' = Some []"
    using scan_serial [of s] sc "1.prems" by simp
  show ?case
  proof (cases ok)
    case True
    then have d: "drain s = drain s'"
      using rf by (subst drain.simps) simp
    have "scan (s\<lparr>buffer := buffer s @ e\<rparr>) = (True, s'\<lparr>buffer := buffer s' @ e\<rparr>)"
      using scan_append [of s s' e] sc True by simp
    then have "read_frame (s\<lparr>buffer := buffer s @ e\<rparr>) = (True, s'\<lparr>buffer := buffer s' @ e\<rparr>)"
      using "1.prems" by (simp add: read_frame_pulled)
    then have "drain (s\<lparr>buffer := buffer s @ e\<rparr>) = drain (s'\<lparr>buffer := buffer s' @ e\<rparr>)"
      by (subst drain.simps) simp
    then show ?thesis
      using "1.IH" [OF rf [symmetric] refl] True ser d by simp
  next
    case False
    then have d: "drain s = s'"
      using rf by (subst drain.simps) simp
    have "scan (s\<lparr>buffer := buffer s @ e\<rparr>) = scan (s'\<lparr>buffer := buffer s' @ e\<rparr>)"
      using scan_append [of s s' e] sc False by simp
    then have "read_frame (s\<lparr>buffer := buffer s @ e\<rparr>) = read_frame (s'\<lparr>buffer := buffer s' @ e\<rparr>)"
      using "1.prems" ser by (simp add: read_frame_pulled)
    then have "drain (s\<lparr>buffer := buffer s @ e\<rparr>) = drain (s'\<lparr>buffer := buffer s' @ e\<rparr>)"
      by (rule drain_cong)
    then show ?thesis
      using d by simp
  qed
qed

lemma drain_feed:
  "serial s = Some [] \<Longrightarrow> drain (feed c s) = drain (s\<lparr>buffer := buffer s @ c\<rparr>)"
proof -
  assume s: "serial s = Some []"
  then have "serial (feed c s) = Some c"
    by (simp add: feed_def)
  from drain_pull [OF this] s serial_update_same [OF s] show ?thesis
    by (simp add: feed_def)
qed

lemma feed_chunks_pulled:
  "serial s = Some [] \<Longrightarrow> feed_chunks cs (drain s) = drain (s\<lparr>buffer := buffer s @ concat cs\<rparr>)"
proof (induction cs arbitrary: s)
  case Nil
  then show ?case by (simp add: feed_chunks_def)
next
  case (Cons c cs)
  let ?t = "s\<lparr>buffer := buffer s @ c\<rparr>"
  have "feed_chunks (c # cs) (drain s) = feed_chunks cs (drain (feed c (drain s)))"
    by (simp add: feed_chunks_def)
  also have "drain (feed c (drain s)) = drain ?t"
    using Cons.prems by (simp add: drain_feed serial_drain drain_append_drain)
  also have "feed_chunks cs (drain ?t) = drain (?t\<lparr>buffer := buffer ?t @ concat cs\<rparr>)"
    using Cons.prems by (intro Cons.IH) simp
  finally show ?case by simp
qed

lemma chunking_pulled:
  assumes "serial s = Some []"
  shows "feed_chunks cs (drain s) = drain (feed (concat cs) (drain s))"
  using assms by (simp add: feed_chunks_pulled drain_feed serial_drain drain_append_drain)

text \<open>
  Claim C5. Let a byte sequence be cut into chunks \<open>cs\<close> in any way. Feeding the chunks
  one at a time, draining with \<^verbatim>\<open>read_frame\<close> after each, ends in the same decoder
  state as feeding \<open>concat cs\<close> at once and draining: the same channels, link statistics,
  \<open>frame_count\<close> and \<open>error_count\<close> (and the same buffered rest). This holds from any
  drained state \<open>drain s\<close>, and in particular from the fresh decoder with its port open.
\<close>

theorem chunking_invariance:
  "feed_chunks cs (drain s) = drain (feed (concat cs) (drain s))
   \<and> feed_chunks cs (open_port init) = drain (feed (concat cs) (open_port init))"
proof
  show "feed_chunks cs (drain s) = drain (feed (concat cs) (drain s))"
  proof (cases "serial s")
    case None
    then have rf: "read_frame s = (False, s)"
      by (simp add: read_frame_def)
    then have d: "drain s = s"
      by (subst drain.simps) simp
    have f: "feed c s = s" for c
      using None by (simp add: feed_def)
    have "feed_chunks cs s = s"
      unfolding feed_chunks_def by (induction cs) (simp_all add: f d)
    then show ?thesis
      by (simp add: d f)
  next
    case (Some q)
    let ?t = "s\<lparr>serial := Some [], buffer := buffer s @ q\<rparr>"
    have "drain s = drain ?t"
      by (rule drain_pull [OF Some])
    moreover have "feed_chunks cs (drain ?t) = drain (feed (concat cs) (drain ?t))"
      by (rule chunking_pulled) simp
    ultimately show ?thesis by simp
  qed
next
  have "scan (open_port init) = (False, open_port init)"
    by (subst scan.simps) (simp add: open_port_def init_def)
  then have "read_frame (open_port init) = (False, open_port init)"
    by (simp add: read_frame_pulled open_port_def)
  then have d: "drain (open_port init) = open_port init"
    by (subst drain.simps) simp
  have "feed_chunks cs (drain (open_port init)) = drain (feed (concat cs) (drain (open_port init)))"
    by (rule chunking_pulled) (simp add: open_port_def)
  then show "feed_chunks cs (open_port init) = drain (feed (concat cs) (open_port init))"
    by (simp add: d)
qed

end
